theory Spec2Isabelle
  imports Main
begin

section \<open>resolve-vars: a cache of Consul variables\<close>

text \<open>
  The source file holds two versions of the class \<^verbatim>\<open>Resolver\<close>.
  \<^item> The list version (lines 27-117): \<^verbatim>\<open>task(keys)\<close> takes an array of names, a name is
    its own Consul key, and \<^verbatim>\<open>_vars[name]\<close> holds the value itself. Its embedding
    carries the prefix \<open>R1_\<close>.
  \<^item> The mapping version (lines 151-261): \<^verbatim>\<open>task(vars)\<close> takes an object of local
    name / remote path pairs, and \<^verbatim>\<open>_vars[name]\<close> holds an entry
    \<^verbatim>\<open>{path, value}\<close>. Its embedding carries the prefix \<open>R2_\<close>.

  Every method that returns a promise is written in the source as a synchronous part
  that hands a request to \<^verbatim>\<open>this._consul.kv\<close>, and a callback that Consul's client invokes
  later with \<^verbatim>\<open>(err, res)\<close>. The embedding keeps the two apart: \<open>_call\<close> is the
  synchronous part, \<open>_callback\<close> is the callback, and the reply of the client is an
  argument of the callback. The Consul client itself is not part of the repository; the
  resolver's record keeps the list of requests handed to it, in the order of the calls.

  The constructor sets \<^verbatim>\<open>this._vars = {}\<close>, an ordinary object whose prototype is
  \<^verbatim>\<open>Object.prototype\<close>. The expressions \<^verbatim>\<open>this._vars[name]\<close> and
  \<^verbatim>\<open>this._vars[name] = x\<close> are therefore modelled as JavaScript evaluates them: a read
  that finds no own property goes on to the prototype, and an assignment to the name
  \<^verbatim>\<open>__proto__\<close> runs the setter that \<^verbatim>\<open>Object.prototype\<close> defines. The values that are
  written and fetched are primitive values; \<^verbatim>\<open>Object.prototype\<close> is the one of a new
  runtime, and only the resolver changes it.
\<close>

subsection \<open>JavaScript values, replies and promises\<close>

datatype jsval = Undefined | Null | Bool bool | Num int | Str string

text \<open>The values that \<^verbatim>\<open>if\<close> and \<^verbatim>\<open>&&\<close> take as true.\<close>

fun truthy :: "jsval \<Rightarrow> bool" where
  "truthy Undefined = False"
| "truthy Null = False"
| "truthy (Bool b) = b"
| "truthy (Num n) = (n \<noteq> 0)"
| "truthy (Str s) = (s \<noteq> [])"

datatype error = Error string

text \<open>A request handed to \<^verbatim>\<open>this._consul.kv\<close>: \<^verbatim>\<open>get(key, cb)\<close> or \<^verbatim>\<open>set(key, val, cb)\<close>.\<close>

datatype kv_call = KvGet jsval | KvSet jsval jsval

text \<open>
  The object a read passes to its callback; \<open>None\<close> stands for \<^verbatim>\<open>undefined\<close>, which
  the client passes when the key is not set.
\<close>

datatype kv_item = Item (Value: jsval)

text \<open>What the client passes to the callback of a read: a truthy \<^verbatim>\<open>err\<close>, or \<^verbatim>\<open>res\<close>.\<close>

type_synonym get_reply = "error + kv_item option"

text \<open>What the client passes to the callback of a write: a truthy \<^verbatim>\<open>err\<close>, or none.\<close>

type_synonym set_reply = "error option"

text \<open>\<^verbatim>\<open>res && res.Value\<close>\<close>

fun res_Value :: "kv_item option \<Rightarrow> jsval" where
  "res_Value None = Undefined"
| "res_Value (Some res) = Value res"

text \<open>
  What a callback does to the promise it belongs to: it calls \<^verbatim>\<open>resolve\<close>, it calls
  \<^verbatim>\<open>reject\<close>, or it throws before either (the promise then stays pending).
\<close>

datatype 'a settled = Resolved 'a | Rejected error | TypeError

datatype 'a promise = Pending | Fulfilled 'a | Failed error

text \<open>
  \<^verbatim>\<open>Promise.all\<close> over \<open>n\<close> promises: it is fulfilled with the array of values once
  every promise is fulfilled, and fails with the reason of the first promise that is
  rejected; once settled it never changes.
\<close>

record 'a promise_all =
  pa_size :: nat
  pa_vals :: "nat \<rightharpoonup> 'a"
  pa_state :: "'a list promise"

definition Promise_all :: "nat \<Rightarrow> 'a promise_all" where
  "Promise_all n =
     \<lparr>pa_size = n, pa_vals = Map.empty,
      pa_state = (if n = 0 then Fulfilled [] else Pending)\<rparr>"

definition settle_all :: "nat \<Rightarrow> 'a settled \<Rightarrow> 'a promise_all \<Rightarrow> 'a promise_all" where
  "settle_all i s pa =
     (case s of
        Resolved v \<Rightarrow>
          (let vals = (pa_vals pa)(i \<mapsto> v) in
           pa\<lparr>pa_vals := vals,
              pa_state :=
                (case pa_state pa of
                   Pending \<Rightarrow>
                     (case those (map vals [0..<pa_size pa]) of
                        Some vs \<Rightarrow> Fulfilled vs
                      | None \<Rightarrow> Pending)
                 | Fulfilled vs \<Rightarrow> Fulfilled vs
                 | Failed e \<Rightarrow> Failed e)\<rparr>)
      | Rejected err \<Rightarrow>
          pa\<lparr>pa_state :=
               (case pa_state pa of
                  Pending \<Rightarrow> Failed err
                | Fulfilled vs \<Rightarrow> Fulfilled vs
                | Failed e \<Rightarrow> Failed e)\<rparr>
      | TypeError \<Rightarrow> pa)"

subsection \<open>Objects and their prototype\<close>

text \<open>
  The properties of \<^verbatim>\<open>Object.prototype\<close>: eleven functions, and the accessor
  \<^verbatim>\<open>__proto__\<close>, whose getter returns the prototype of the object it is read from and
  whose setter replaces that prototype when it is given an object or \<^verbatim>\<open>null\<close>, and does
  nothing when it is given another value.
\<close>

definition Object_prototype_functions :: "string list" where
  "Object_prototype_functions =
     [''constructor'', ''__defineGetter__'', ''__defineSetter__'', ''hasOwnProperty'',
      ''__lookupGetter__'', ''__lookupSetter__'', ''isPrototypeOf'',
      ''propertyIsEnumerable'', ''toString'', ''valueOf'', ''toLocaleString'']"

text \<open>
  An object \<^verbatim>\<open>{}\<close> to which primitive values are assigned, as \<^verbatim>\<open>this._vars\<close> of the
  list version and \<^verbatim>\<open>ret\<close> of its closure are: its own properties, and whether an
  assignment of \<^verbatim>\<open>null\<close> to \<^verbatim>\<open>__proto__\<close> has removed its prototype.
\<close>

record plain_object =
  props :: "string \<rightharpoonup> jsval"
  null_prototype :: bool

definition new_object :: plain_object where
  "new_object = \<lparr>props = Map.empty, null_prototype = False\<rparr>"

text \<open>
  What \<^verbatim>\<open>obj[name]\<close> evaluates to: a primitive value, a function of
  \<^verbatim>\<open>Object.prototype\<close>, or \<^verbatim>\<open>Object.prototype\<close> itself.
\<close>

datatype js_any = Prim jsval | Function string | Object_prototype

text \<open>\<^verbatim>\<open>obj[name]\<close>\<close>

definition get_prop :: "plain_object \<Rightarrow> string \<Rightarrow> js_any" where
  "get_prop obj name =
     (case props obj name of
        Some v \<Rightarrow> Prim v
      | None \<Rightarrow>
          if null_prototype obj then Prim Undefined
          else if name = ''__proto__'' then Object_prototype
          else if name \<in> set Object_prototype_functions then Function name
          else Prim Undefined)"

text \<open>
  \<^verbatim>\<open>obj[name] = val\<close> for a primitive \<^verbatim>\<open>val\<close>. An own property is created or
  overwritten, except that the name \<^verbatim>\<open>__proto__\<close>, when it is not an own property and
  the object still has its prototype, reaches the setter.
\<close>

definition set_prop :: "string \<Rightarrow> jsval \<Rightarrow> plain_object \<Rightarrow> plain_object" where
  "set_prop name val obj =
     (if name = ''__proto__'' \<and> props obj name = None \<and> \<not> null_prototype obj
      then (if val = Null then obj\<lparr>null_prototype := True\<rparr> else obj)
      else obj\<lparr>props := (props obj)(name \<mapsto> val)\<rparr>)"

subsection \<open>The resolver\<close>

text \<open>
  \<open>kv_log\<close> is the list of requests handed to \<^verbatim>\<open>this._consul.kv\<close> so far;
  \<open>vars\<close> is \<^verbatim>\<open>this._vars\<close>.
\<close>

record 'o resolver =
  kv_log :: "kv_call list"
  vars :: 'o

subsection \<open>The list version (lines 27-117)\<close>

text \<open>\<^verbatim>\<open>constructor()\<close>\<close>

definition R1_Resolver :: "plain_object resolver" where
  "R1_Resolver = \<lparr>kv_log = [], vars = new_object\<rparr>"

text \<open>\<^verbatim>\<open>var(name)\<close>: the result and the resolver after the call.\<close>

definition R1_var :: "string \<Rightarrow> plain_object resolver \<Rightarrow> js_any \<times> plain_object resolver" where
  "R1_var name r = (get_prop (vars r) name, r)"

text \<open>\<^verbatim>\<open>get(name)\<close>\<close>

definition R1_get_call :: "string \<Rightarrow> plain_object resolver \<Rightarrow> plain_object resolver" where
  "R1_get_call name r = r\<lparr>kv_log := kv_log r @ [KvGet (Str name)]\<rparr>"

definition R1_get_callback ::
  "string \<Rightarrow> get_reply \<Rightarrow> plain_object resolver
     \<Rightarrow> jsval settled \<times> plain_object resolver" where
  "R1_get_callback name reply r =
     (case reply of
        Inl err \<Rightarrow> (Rejected err, r)
      | Inr res \<Rightarrow>
          (let val = res_Value res in
           (Resolved val, r\<lparr>vars := set_prop name val (vars r)\<rparr>)))"

text \<open>\<^verbatim>\<open>set(name, val)\<close>\<close>

definition R1_set_call ::
  "string \<Rightarrow> jsval \<Rightarrow> plain_object resolver \<Rightarrow> plain_object resolver" where
  "R1_set_call name val r = r\<lparr>kv_log := kv_log r @ [KvSet (Str name) val]\<rparr>"

definition R1_set_callback ::
  "string \<Rightarrow> jsval \<Rightarrow> set_reply \<Rightarrow> plain_object resolver
     \<Rightarrow> unit settled \<times> plain_object resolver" where
  "R1_set_callback name val reply r =
     (case reply of
        Some err \<Rightarrow> (Rejected err, r)
      | None \<Rightarrow> (Resolved (), r\<lparr>vars := set_prop name val (vars r)\<rparr>))"

text \<open>
  \<^verbatim>\<open>task(keys)\<close> only builds the closure. Invoking the closure maps \<^verbatim>\<open>get\<close> over
  \<^verbatim>\<open>keys\<close>, which hands every read to the client, and waits with \<^verbatim>\<open>Promise.all\<close>.
\<close>

definition R1_task ::
  "string list \<Rightarrow> plain_object resolver \<Rightarrow> string list \<times> plain_object resolver" where
  "R1_task keys r = (keys, r)"

definition R1_invoke ::
  "string list \<Rightarrow> plain_object resolver \<Rightarrow> jsval promise_all \<times> plain_object resolver" where
  "R1_invoke keys r = (Promise_all (length keys), fold R1_get_call keys r)"

text \<open>
  The client invokes the callback of the read that \<^verbatim>\<open>keys.map\<close> made at index \<open>i\<close>;
  an index at which no read was made has no callback.
\<close>

definition R1_complete ::
  "string list \<Rightarrow> nat \<times> get_reply \<Rightarrow> jsval promise_all \<times> plain_object resolver
     \<Rightarrow> jsval promise_all \<times> plain_object resolver" where
  "R1_complete keys ev st =
     (case ev of (i, reply) \<Rightarrow>
      case st of (pa, r) \<Rightarrow>
        if i < length keys then
          (case R1_get_callback (keys ! i) reply r of
             (s, r') \<Rightarrow> (settle_all i s pa, r'))
        else (pa, r))"

text \<open>
  The \<^verbatim>\<open>then\<close> of the closure: \<^verbatim>\<open>ret = {}\<close>, and \<^verbatim>\<open>ret[keys[i]] = vals[i]\<close> for
  every index, in order.
\<close>

definition R1_ret :: "string list \<Rightarrow> jsval list \<Rightarrow> plain_object" where
  "R1_ret keys vals =
     fold (\<lambda>i ret. set_prop (keys ! i) (vals ! i) ret) [0..<length keys] new_object"

definition R1_result :: "string list \<Rightarrow> jsval promise_all \<Rightarrow> plain_object promise" where
  "R1_result keys pa =
     (case pa_state pa of
        Pending \<Rightarrow> Pending
      | Fulfilled vals \<Rightarrow> Fulfilled (R1_ret keys vals)
      | Failed err \<Rightarrow> Failed err)"

subsection \<open>The mapping version (lines 151-261)\<close>

text \<open>
  An entry of \<^verbatim>\<open>this._vars\<close>: \<^verbatim>\<open>{path}\<close>, which has no property \<^verbatim>\<open>value\<close> of its
  own, or \<^verbatim>\<open>{path, value}\<close>. Its prototype is \<^verbatim>\<open>Object.prototype\<close>.
\<close>

record entry =
  entry_path :: jsval
  entry_value :: "jsval option"

text \<open>
  \<^verbatim>\<open>this._vars\<close> of the mapping version, with the objects that an expression
  \<^verbatim>\<open>this._vars[name]\<close> can reach and \<^verbatim>\<open>_get\<close> can assign to:
  \<^item> \<open>entries\<close>: the own properties of \<^verbatim>\<open>this._vars\<close>;
  \<^item> \<open>prototype\<close>: the entry that an assignment to \<^verbatim>\<open>__proto__\<close> has made the
    prototype of \<^verbatim>\<open>this._vars\<close>, or \<open>None\<close> while it is \<^verbatim>\<open>Object.prototype\<close>;
  \<^item> \<open>function_value\<close>: the property \<^verbatim>\<open>value\<close> that has been put on a function of
    \<^verbatim>\<open>Object.prototype\<close>;
  \<^item> \<open>prototype_value\<close>: the property \<^verbatim>\<open>value\<close> that has been put on
    \<^verbatim>\<open>Object.prototype\<close>, which every object then inherits.
\<close>

record entries_object =
  entries :: "string \<rightharpoonup> entry"
  prototype :: "entry option"
  function_value :: "string \<rightharpoonup> jsval"
  prototype_value :: "jsval option"

definition new_entries_object :: entries_object where
  "new_entries_object =
     \<lparr>entries = Map.empty, prototype = None, function_value = Map.empty,
      prototype_value = None\<rparr>"

text \<open>
  What \<^verbatim>\<open>this._vars[name]\<close> evaluates to: an entry that is an own property, the entry
  that is the prototype, \<^verbatim>\<open>Object.prototype\<close>, one of its functions, or a primitive
  value (\<^verbatim>\<open>undefined\<close> when nothing is found).
\<close>

datatype entry_ref =
    Own_entry entry
  | Prototype_entry entry
  | Object_prototype_ref
  | Function_ref string
  | Primitive jsval

text \<open>\<^verbatim>\<open>Object.prototype.value\<close>\<close>

definition inherited_value :: "entries_object \<Rightarrow> jsval" where
  "inherited_value obj = (case prototype_value obj of None \<Rightarrow> Undefined | Some v \<Rightarrow> v)"

text \<open>A read of a name other than \<^verbatim>\<open>__proto__\<close> that has reached \<^verbatim>\<open>Object.prototype\<close>.\<close>

definition Object_prototype_get :: "entries_object \<Rightarrow> string \<Rightarrow> entry_ref" where
  "Object_prototype_get obj name =
     (if name \<in> set Object_prototype_functions then Function_ref name
      else if name = ''value'' then Primitive (inherited_value obj)
      else Primitive Undefined)"

text \<open>\<^verbatim>\<open>this._vars[name]\<close>\<close>

definition R2_get_prop :: "entries_object \<Rightarrow> string \<Rightarrow> entry_ref" where
  "R2_get_prop obj name =
     (case entries obj name of
        Some e \<Rightarrow> Own_entry e
      | None \<Rightarrow>
          if name = ''__proto__'' then
            (case prototype obj of
               None \<Rightarrow> Object_prototype_ref
             | Some e \<Rightarrow> Prototype_entry e)
          else
            (case prototype obj of
               None \<Rightarrow> Object_prototype_get obj name
             | Some e \<Rightarrow>
                 if name = ''path'' then Primitive (entry_path e)
                 else if name = ''value'' then
                   (case entry_value e of
                      Some v \<Rightarrow> Primitive v
                    | None \<Rightarrow> Object_prototype_get obj name)
                 else Object_prototype_get obj name))"

text \<open>
  \<^verbatim>\<open>this._vars[name] = e\<close> for a new entry \<^verbatim>\<open>e\<close>: the setter of \<^verbatim>\<open>__proto__\<close>
  makes the entry the prototype.
\<close>

definition R2_set_prop :: "string \<Rightarrow> entry \<Rightarrow> entries_object \<Rightarrow> entries_object" where
  "R2_set_prop name e obj =
     (if name = ''__proto__'' \<and> entries obj name = None
      then obj\<lparr>prototype := Some e\<rparr>
      else obj\<lparr>entries := (entries obj)(name \<mapsto> e)\<rparr>)"

text \<open>
  \<^verbatim>\<open>this._vars[name].value = val\<close>, in strict mode as all code of a class is: the
  assignment throws a \<^verbatim>\<open>TypeError\<close> (\<open>None\<close>) when \<^verbatim>\<open>this._vars[name]\<close> is not an
  object.
\<close>

definition R2_set_value :: "string \<Rightarrow> jsval \<Rightarrow> entries_object \<Rightarrow> entries_object option" where
  "R2_set_value name val obj =
     (case R2_get_prop obj name of
        Own_entry e \<Rightarrow> Some (obj\<lparr>entries := (entries obj)(name \<mapsto> e\<lparr>entry_value := Some val\<rparr>)\<rparr>)
      | Prototype_entry e \<Rightarrow> Some (obj\<lparr>prototype := Some (e\<lparr>entry_value := Some val\<rparr>)\<rparr>)
      | Object_prototype_ref \<Rightarrow> Some (obj\<lparr>prototype_value := Some val\<rparr>)
      | Function_ref f \<Rightarrow> Some (obj\<lparr>function_value := (function_value obj)(f \<mapsto> val)\<rparr>)
      | Primitive p \<Rightarrow> None)"

text \<open>
  \<^verbatim>\<open>vr && vr.value\<close>: a value that is not true is the result itself; otherwise the
  property \<^verbatim>\<open>value\<close> is read, from the object or from what it inherits.
\<close>

definition and_value :: "entries_object \<Rightarrow> entry_ref \<Rightarrow> jsval" where
  "and_value obj vr =
     (case vr of
        Own_entry e \<Rightarrow> (case entry_value e of Some v \<Rightarrow> v | None \<Rightarrow> inherited_value obj)
      | Prototype_entry e \<Rightarrow> (case entry_value e of Some v \<Rightarrow> v | None \<Rightarrow> inherited_value obj)
      | Object_prototype_ref \<Rightarrow> inherited_value obj
      | Function_ref f \<Rightarrow> (case function_value obj f of Some v \<Rightarrow> v | None \<Rightarrow> inherited_value obj)
      | Primitive p \<Rightarrow> (if truthy p then inherited_value obj else p))"

text \<open>The entry that \<^verbatim>\<open>this._vars[name]\<close> is, if it is one.\<close>

definition R2_entry :: "entries_object \<Rightarrow> string \<Rightarrow> entry option" where
  "R2_entry obj name =
     (case R2_get_prop obj name of
        Own_entry e \<Rightarrow> Some e
      | Prototype_entry e \<Rightarrow> Some e
      | Object_prototype_ref \<Rightarrow> None
      | Function_ref f \<Rightarrow> None
      | Primitive p \<Rightarrow> None)"

text \<open>\<^verbatim>\<open>constructor()\<close>\<close>

definition R2_Resolver :: "entries_object resolver" where
  "R2_Resolver = \<lparr>kv_log = [], vars = new_entries_object\<rparr>"

text \<open>
  The argument of \<^verbatim>\<open>task\<close> is an object; it is given by its own properties in the
  order of \<^verbatim>\<open>Object.keys\<close>, each name once.
\<close>

type_synonym js_object = "(string \<times> jsval) list"

definition Object_keys :: "js_object \<Rightarrow> string list" where
  "Object_keys obj = map fst obj"

definition js_prop :: "js_object \<Rightarrow> string \<Rightarrow> jsval" where
  "js_prop obj key = (case map_of obj key of None \<Rightarrow> Undefined | Some v \<Rightarrow> v)"

text \<open>\<^verbatim>\<open>var(name)\<close>: \<^verbatim>\<open>vr && vr.value\<close>\<close>

definition R2_var :: "string \<Rightarrow> entries_object resolver \<Rightarrow> jsval \<times> entries_object resolver" where
  "R2_var name r = (and_value (vars r) (R2_get_prop (vars r) name), r)"

text \<open>\<^verbatim>\<open>_get(name, path)\<close>\<close>

definition R2_get_call ::
  "string \<Rightarrow> jsval \<Rightarrow> entries_object resolver \<Rightarrow> entries_object resolver" where
  "R2_get_call name path r = r\<lparr>kv_log := kv_log r @ [KvGet path]\<rparr>"

definition R2_get_callback ::
  "string \<Rightarrow> get_reply \<Rightarrow> entries_object resolver
     \<Rightarrow> jsval settled \<times> entries_object resolver" where
  "R2_get_callback name reply r =
     (case reply of
        Inl err \<Rightarrow> (Rejected err, r)
      | Inr res \<Rightarrow>
          (let val = res_Value res in
           case R2_set_value name val (vars r) of
             None \<Rightarrow> (TypeError, r)
           | Some obj \<Rightarrow> (Resolved val, r\<lparr>vars := obj\<rparr>)))"

text \<open>
  \<^verbatim>\<open>set(name, path, val)\<close>. The first statement of the method rebinds \<^verbatim>\<open>path\<close> and
  \<^verbatim>\<open>val\<close>; the closure of the callback sees the rebound variables.
\<close>

definition R2_set_args :: "string \<Rightarrow> jsval \<Rightarrow> jsval \<Rightarrow> jsval \<times> jsval" where
  "R2_set_args name path val = (if val = Undefined then (Str name, path) else (path, val))"

definition R2_set_call ::
  "string \<Rightarrow> jsval \<Rightarrow> jsval \<Rightarrow> entries_object resolver \<Rightarrow> entries_object resolver" where
  "R2_set_call name path val r =
     (case R2_set_args name path val of
        (path', val') \<Rightarrow> r\<lparr>kv_log := kv_log r @ [KvSet path' val']\<rparr>)"

definition R2_set_callback ::
  "string \<Rightarrow> jsval \<Rightarrow> jsval \<Rightarrow> set_reply \<Rightarrow> entries_object resolver
     \<Rightarrow> unit settled \<times> entries_object resolver" where
  "R2_set_callback name path val reply r =
     (case R2_set_args name path val of
        (path', val') \<Rightarrow>
          (case reply of
             Some err \<Rightarrow> (Rejected err, r)
           | None \<Rightarrow>
               (Resolved (),
                r\<lparr>vars :=
                    R2_set_prop name \<lparr>entry_path = path', entry_value = Some val'\<rparr> (vars r)\<rparr>)))"

text \<open>
  \<^verbatim>\<open>task(vars)\<close> assigns an entry \<^verbatim>\<open>{path: vars[key]}\<close> for every key and returns the
  closure, which captures \<^verbatim>\<open>keys\<close> and \<^verbatim>\<open>vars\<close>.
\<close>

definition R2_task ::
  "js_object \<Rightarrow> entries_object resolver \<Rightarrow> js_object \<times> entries_object resolver" where
  "R2_task vs r =
     (vs,
      fold (\<lambda>key r. r\<lparr>vars :=
                R2_set_prop key \<lparr>entry_path = js_prop vs key, entry_value = None\<rparr> (vars r)\<rparr>)
        (Object_keys vs) r)"

text \<open>Invoking the closure: \<^verbatim>\<open>keys.map\<close> calls \<^verbatim>\<open>_get(key, vars[key])\<close> for every key.\<close>

definition R2_invoke ::
  "js_object \<Rightarrow> entries_object resolver \<Rightarrow> jsval promise_all \<times> entries_object resolver" where
  "R2_invoke vs r =
     (Promise_all (length (Object_keys vs)),
      fold (\<lambda>key. R2_get_call key (js_prop vs key)) (Object_keys vs) r)"

definition R2_complete ::
  "js_object \<Rightarrow> nat \<times> get_reply \<Rightarrow> jsval promise_all \<times> entries_object resolver
     \<Rightarrow> jsval promise_all \<times> entries_object resolver" where
  "R2_complete vs ev st =
     (case ev of (i, reply) \<Rightarrow>
      case st of (pa, r) \<Rightarrow>
        if i < length (Object_keys vs) then
          (case R2_get_callback (Object_keys vs ! i) reply r of
             (s, r') \<Rightarrow> (settle_all i s pa, r'))
        else (pa, r))"

text \<open>
  \<^verbatim>\<open>.then(() => cb()).catch((err) => cb(err))\<close>: how the closure's callback has been
  called, if it has been.
\<close>

datatype cb_call = Cb | Cb_err error

definition R2_cb :: "jsval promise_all \<Rightarrow> cb_call option" where
  "R2_cb pa =
     (case pa_state pa of
        Pending \<Rightarrow> None
      | Fulfilled vals \<Rightarrow> Some Cb
      | Failed err \<Rightarrow> Some (Cb_err err))"

subsection \<open>One bulk resolution\<close>

text \<open>
  A bulk resolution is the invocation of the closure in a resolver \<open>r\<close>, followed by
  the callbacks of its reads in the order \<open>evs\<close> in which the client completes them;
  an element \<open>(i, reply)\<close> of \<open>evs\<close> is the completion of the read made for
  \<^verbatim>\<open>keys[i]\<close>.
\<close>

definition R1_run ::
  "string list \<Rightarrow> (nat \<times> get_reply) list \<Rightarrow> plain_object resolver
     \<Rightarrow> jsval promise_all \<times> plain_object resolver" where
  "R1_run keys evs r = fold (R1_complete keys) evs (R1_invoke keys r)"

definition R2_run ::
  "js_object \<Rightarrow> (nat \<times> get_reply) list \<Rightarrow> entries_object resolver
     \<Rightarrow> jsval promise_all \<times> entries_object resolver" where
  "R2_run vs evs r = fold (R2_complete vs) evs (R2_invoke vs r)"

text \<open>
  The completions \<open>evs\<close> of an invocation that made \<open>n\<close> reads: the client invokes
  the callback of a read at most once, and only of a read that was made.
\<close>

definition completions :: "nat \<Rightarrow> (nat \<times> get_reply) list \<Rightarrow> bool" where
  "completions n evs \<longleftrightarrow> distinct (map fst evs) \<and> (\<forall>ev\<in>set evs. fst ev < n)"

text \<open>
  Two invariants of \<^verbatim>\<open>Promise.all\<close>. While no promise has been rejected, it is pending
  exactly as long as some promise has no value; and whenever it is fulfilled, every
  promise has a value.
\<close>

definition pa_inv :: "'a promise_all \<Rightarrow> bool" where
  "pa_inv pa \<longleftrightarrow>
     (pa_state pa = Pending \<longleftrightarrow> \<not> {..<pa_size pa} \<subseteq> dom (pa_vals pa)) \<and>
     (\<forall>e. pa_state pa \<noteq> Failed e)"


subsection \<open>Histories of a resolver\<close>

text \<open>
  What can happen to a resolver: a caller calls a method or invokes a closure that
  \<^verbatim>\<open>task\<close> returned, or the client invokes the callback of a read or of a write.
  \<open>R1_step\<close> and \<open>R2_step\<close> give the resolver after one such action; the names of an
  action are the local names that it registers, resolves or sets.
\<close>

datatype R1_action =
    R1_Task "string list"
  | R1_Invoke "string list"
  | R1_Get string
  | R1_Get_done string get_reply
  | R1_Set string jsval
  | R1_Set_done string jsval set_reply
  | R1_Var string

fun R1_step :: "R1_action \<Rightarrow> plain_object resolver \<Rightarrow> plain_object resolver" where
  "R1_step (R1_Task keys) r = snd (R1_task keys r)"
| "R1_step (R1_Invoke keys) r = snd (R1_invoke keys r)"
| "R1_step (R1_Get name) r = R1_get_call name r"
| "R1_step (R1_Get_done name reply) r = snd (R1_get_callback name reply r)"
| "R1_step (R1_Set name val) r = R1_set_call name val r"
| "R1_step (R1_Set_done name val reply) r = snd (R1_set_callback name val reply r)"
| "R1_step (R1_Var name) r = snd (R1_var name r)"

fun R1_names :: "R1_action \<Rightarrow> string list" where
  "R1_names (R1_Task keys) = keys"
| "R1_names (R1_Invoke keys) = keys"
| "R1_names (R1_Get name) = [name]"
| "R1_names (R1_Get_done name reply) = [name]"
| "R1_names (R1_Set name val) = [name]"
| "R1_names (R1_Set_done name val reply) = [name]"
| "R1_names (R1_Var name) = []"

datatype R2_action =
    R2_Task js_object
  | R2_Invoke js_object
  | R2_Get string jsval
  | R2_Get_done string get_reply
  | R2_Set string jsval jsval
  | R2_Set_done string jsval jsval set_reply
  | R2_Var string

fun R2_step :: "R2_action \<Rightarrow> entries_object resolver \<Rightarrow> entries_object resolver" where
  "R2_step (R2_Task vs) r = snd (R2_task vs r)"
| "R2_step (R2_Invoke vs) r = snd (R2_invoke vs r)"
| "R2_step (R2_Get name path) r = R2_get_call name path r"
| "R2_step (R2_Get_done name reply) r = snd (R2_get_callback name reply r)"
| "R2_step (R2_Set name path val) r = R2_set_call name path val r"
| "R2_step (R2_Set_done name path val reply) r = snd (R2_set_callback name path val reply r)"
| "R2_step (R2_Var name) r = snd (R2_var name r)"

fun R2_names :: "R2_action \<Rightarrow> string list" where
  "R2_names (R2_Task vs) = Object_keys vs"
| "R2_names (R2_Invoke vs) = Object_keys vs"
| "R2_names (R2_Get name path) = [name]"
| "R2_names (R2_Get_done name reply) = [name]"
| "R2_names (R2_Set name path val) = [name]"
| "R2_names (R2_Set_done name path val reply) = [name]"
| "R2_names (R2_Var name) = []"

text \<open>
  What a history that touches neither \<open>name\<close> nor \<^verbatim>\<open>__proto__\<close> keeps true of the mapping
  version: \<open>name\<close> is not an own property, the prototype is \<^verbatim>\<open>Object.prototype\<close>, which
  has no property \<^verbatim>\<open>value\<close>, and neither has its function of that name.
\<close>

definition untouched :: "string \<Rightarrow> entries_object \<Rightarrow> bool" where
  "untouched name obj \<longleftrightarrow>
     entries obj name = None \<and> entries obj ''__proto__'' = None \<and> prototype obj = None \<and>
     prototype_value obj = None \<and> function_value obj name = None"

section \<open>Properties\<close>

subsection \<open>Promise.all\<close>

lemma those_map_eq_None: "those (map f xs) = None \<longleftrightarrow> (\<exists>x\<in>set xs. f x = None)"
  by (induction xs) (auto split: option.splits)

lemma those_upt_None: "those (map f [0..<n]) = None \<longleftrightarrow> \<not> {..<n} \<subseteq> dom f"
  by (auto simp add: those_map_eq_None)

lemma settle_all_size: "pa_size (settle_all i s pa) = pa_size pa"
  by (simp add: settle_all_def Let_def split: settled.splits)

lemma settle_all_dom:
  "dom (pa_vals (settle_all i s pa)) =
     (case s of Resolved v \<Rightarrow> insert i (dom (pa_vals pa)) | _ \<Rightarrow> dom (pa_vals pa))"
  by (simp add: settle_all_def Let_def split: settled.splits)

lemma settle_all_Rejected:
  "pa_state pa = Pending \<Longrightarrow> pa_state (settle_all i (Rejected e) pa) = Failed e"
  by (simp add: settle_all_def)

lemma settle_all_Failed: "pa_state pa = Failed e \<Longrightarrow> pa_state (settle_all i s pa) = Failed e"
  by (simp add: settle_all_def Let_def split: settled.splits)

lemma settle_all_Fulfilled: "pa_state pa = Fulfilled vs \<Longrightarrow> pa_state (settle_all i s pa) = Fulfilled vs"
  by (simp add: settle_all_def Let_def split: settled.splits)

lemma pa_inv_Promise_all: "pa_inv (Promise_all n)"
  by (auto simp add: pa_inv_def Promise_all_def)

lemma pa_inv_settle_all:
  assumes "pa_inv pa" and "\<forall>e. s \<noteq> Rejected e"
  shows "pa_inv (settle_all i s pa)"
proof (cases s)
  case (Resolved v)
  show ?thesis
  proof (cases "pa_state pa")
    case Pending
    let ?vals = "(pa_vals pa)(i \<mapsto> v)"
    have iff: "those (map ?vals [0..<pa_size pa]) = None \<longleftrightarrow> \<not> {..<pa_size pa} \<subseteq> dom ?vals"
      by (rule those_upt_None)
    show ?thesis
    proof (cases "those (map ?vals [0..<pa_size pa])")
      case None
      with iff have "\<not> {..<pa_size pa} \<subseteq> dom ?vals" by blast
      then show ?thesis
        using Resolved Pending None by (simp add: pa_inv_def settle_all_def Let_def)
    next
      case (Some vs)
      with iff have "{..<pa_size pa} \<subseteq> dom ?vals" by auto
      then show ?thesis
        using Resolved Pending Some by (simp add: pa_inv_def settle_all_def Let_def)
    qed
  next
    case (Fulfilled vs)
    then show ?thesis
      using Resolved assms(1) by (auto simp add: pa_inv_def settle_all_def Let_def)
  next
    case (Failed e)
    then show ?thesis using assms(1) by (simp add: pa_inv_def)
  qed
next
  case (Rejected e)
  then show ?thesis using assms(2) by simp
next
  case TypeError
  then show ?thesis using assms(1) by (simp add: settle_all_def)
qed

lemma pa_inv_not_covered: "pa_inv pa \<Longrightarrow> i < pa_size pa \<Longrightarrow> i \<notin> dom (pa_vals pa) \<Longrightarrow> pa_state pa = Pending"
  unfolding pa_inv_def by blast




subsection \<open>Objects\<close>

lemma get_prop_new_object:
  "get_prop new_object name =
     (if name = ''__proto__'' then Object_prototype
      else if name \<in> set Object_prototype_functions then Function name
      else Prim Undefined)"
  by (simp add: get_prop_def new_object_def)

lemma get_prop_set_prop:
  "name \<noteq> ''__proto__'' \<Longrightarrow> get_prop (set_prop name val obj) name = Prim val"
  by (simp add: get_prop_def set_prop_def)

lemma get_prop_set_prop_other:
  "name' \<noteq> name \<Longrightarrow> name \<noteq> ''__proto__'' \<Longrightarrow>
     get_prop (set_prop name val obj) name' = get_prop obj name'"
  by (simp add: get_prop_def set_prop_def)

lemma R2_entry_alt:
  "R2_entry obj name =
     (case entries obj name of
        Some e \<Rightarrow> Some e
      | None \<Rightarrow> if name = ''__proto__'' then prototype obj else None)"
proof (cases "entries obj name")
  case (Some e)
  then show ?thesis by (simp add: R2_entry_def R2_get_prop_def)
next
  case None
  show ?thesis
  proof (cases "name = ''__proto__''")
    case True
    with None show ?thesis
      by (cases "prototype obj") (simp_all add: R2_entry_def R2_get_prop_def)
  next
    case False
    have opg: "(case Object_prototype_get obj n of
                  Own_entry e \<Rightarrow> Some e | Prototype_entry e \<Rightarrow> Some e
                | Object_prototype_ref \<Rightarrow> None | Function_ref f \<Rightarrow> None
                | Primitive p \<Rightarrow> None) = None" for n
      by (simp add: Object_prototype_get_def)
    show ?thesis
    proof (cases "prototype obj")
      case None
      with \<open>entries obj name = None\<close> False opg show ?thesis
        by (simp add: R2_entry_def R2_get_prop_def)
    next
      case (Some e)
      with \<open>entries obj name = None\<close> False opg show ?thesis
        by (cases "entry_value e") (simp_all add: R2_entry_def R2_get_prop_def)
    qed
  qed
qed

lemma R2_entry_set_prop:
  "R2_entry (R2_set_prop name e obj) name' = (if name' = name then Some e else R2_entry obj name')"
  by (auto simp add: R2_entry_alt R2_set_prop_def split: option.splits)

lemma R2_set_value_entry:
  assumes "R2_entry obj name = Some e"
  shows "\<exists>obj'. R2_set_value name val obj = Some obj' \<and>
           R2_entry obj' = (R2_entry obj)(name \<mapsto> e\<lparr>entry_value := Some val\<rparr>)"
proof (cases "R2_get_prop obj name")
  case (Own_entry e')
  with assms have e: "e' = e" by (simp add: R2_entry_def)
  from Own_entry have own: "entries obj name = Some e"
    unfolding e
    by (auto simp add: R2_get_prop_def Object_prototype_get_def split: option.splits if_splits)
  let ?obj = "obj\<lparr>entries := (entries obj)(name \<mapsto> e\<lparr>entry_value := Some val\<rparr>)\<rparr>"
  have "R2_entry ?obj name' = ((R2_entry obj)(name \<mapsto> e\<lparr>entry_value := Some val\<rparr>)) name'" for name'
    using own
    by (auto simp add: R2_entry_def R2_get_prop_def Object_prototype_get_def inherited_value_def
          split: option.splits)
  then have "R2_entry ?obj = (R2_entry obj)(name \<mapsto> e\<lparr>entry_value := Some val\<rparr>)" by blast
  with Own_entry e show ?thesis by (simp add: R2_set_value_def)
next
  case (Prototype_entry e')
  with assms have e: "e' = e" by (simp add: R2_entry_def)
  from Prototype_entry have proto: "name = ''__proto__''" "entries obj name = None" "prototype obj = Some e"
    unfolding e
    by (auto simp add: R2_get_prop_def Object_prototype_get_def split: option.splits if_splits)
  let ?obj = "obj\<lparr>prototype := Some (e\<lparr>entry_value := Some val\<rparr>)\<rparr>"
  have "R2_entry ?obj name' = ((R2_entry obj)(name \<mapsto> e\<lparr>entry_value := Some val\<rparr>)) name'" for name'
    using proto
    by (auto simp add: R2_entry_def R2_get_prop_def Object_prototype_get_def inherited_value_def
          split: option.splits)
  then have "R2_entry ?obj = (R2_entry obj)(name \<mapsto> e\<lparr>entry_value := Some val\<rparr>)" by blast
  with Prototype_entry e show ?thesis by (simp add: R2_set_value_def)
next
  case Object_prototype_ref
  with assms show ?thesis by (simp add: R2_entry_def)
next
  case (Function_ref f)
  with assms show ?thesis by (simp add: R2_entry_def)
next
  case (Primitive p)
  with assms show ?thesis by (simp add: R2_entry_def)
qed

lemma R2_set_value_no_entry:
  assumes "R2_entry obj name = None" and "R2_set_value name val obj = Some obj'"
  shows "R2_entry obj' = R2_entry obj"
proof (cases "R2_get_prop obj name")
  case (Own_entry e)
  with assms(1) show ?thesis by (simp add: R2_entry_def)
next
  case (Prototype_entry e)
  with assms(1) show ?thesis by (simp add: R2_entry_def)
next
  case Object_prototype_ref
  with assms(2) have "obj' = obj\<lparr>prototype_value := Some val\<rparr>"
    by (simp add: R2_set_value_def)
  then show ?thesis by (intro ext) (simp add: R2_entry_alt split: option.splits)
next
  case (Function_ref f)
  with assms(2) have "obj' = obj\<lparr>function_value := (function_value obj)(f \<mapsto> val)\<rparr>"
    by (simp add: R2_set_value_def)
  then show ?thesis by (intro ext) (simp add: R2_entry_alt split: option.splits)
next
  case (Primitive p)
  with assms(2) show ?thesis by (simp add: R2_set_value_def)
qed

lemma and_value_entry:
  "R2_entry obj name = Some e \<Longrightarrow>
     and_value obj (R2_get_prop obj name) =
       (case entry_value e of Some v \<Rightarrow> v | None \<Rightarrow> inherited_value obj)"
  by (auto simp add: R2_entry_def and_value_def split: entry_ref.splits)

subsection \<open>The mapping version: methods and callbacks\<close>

lemma R2_get_callback_fst:
  "fst (R2_get_callback name reply r) =
     (case reply of
        Inl err \<Rightarrow> Rejected err
      | Inr res \<Rightarrow>
          (case R2_set_value name (res_Value res) (vars r) of
             None \<Rightarrow> TypeError
           | Some obj \<Rightarrow> Resolved (res_Value res)))"
  by (simp add: R2_get_callback_def Let_def split: sum.splits option.splits)

lemma R2_get_callback_not_Rejected: "fst (R2_get_callback name (Inr res) r) \<noteq> Rejected e"
  by (simp add: R2_get_callback_fst split: option.splits)

lemma R2_get_callback_Resolved:
  assumes "name \<in> dom (R2_entry (vars r))"
  shows "fst (R2_get_callback name (Inr res) r) = Resolved (res_Value res)"
proof -
  from assms obtain e where "R2_entry (vars r) name = Some e" by blast
  from R2_set_value_entry [OF this, of "res_Value res"] show ?thesis
    by (auto simp add: R2_get_callback_fst)
qed

lemma R2_get_callback_entries:
  "R2_entry (vars (snd (R2_get_callback name reply r))) =
     (case reply of
        Inl err \<Rightarrow> R2_entry (vars r)
      | Inr res \<Rightarrow>
          (case R2_entry (vars r) name of
             None \<Rightarrow> R2_entry (vars r)
           | Some e \<Rightarrow> (R2_entry (vars r))(name \<mapsto> e\<lparr>entry_value := Some (res_Value res)\<rparr>)))"
proof (cases reply)
  case (Inl err)
  then show ?thesis by (simp add: R2_get_callback_def)
next
  case (Inr res)
  show ?thesis
  proof (cases "R2_entry (vars r) name")
    case None
    show ?thesis
    proof (cases "R2_set_value name (res_Value res) (vars r)")
      case no: None
      with Inr None show ?thesis by (simp add: R2_get_callback_def)
    next
      case (Some obj)
      with R2_set_value_no_entry [OF None Some] Inr None show ?thesis
        by (simp add: R2_get_callback_def)
    qed
  next
    case (Some e)
    from R2_set_value_entry [OF Some, of "res_Value res"] Inr Some show ?thesis
      by (auto simp add: R2_get_callback_def)
  qed
qed

lemma R2_get_callback_log: "kv_log (snd (R2_get_callback name reply r)) = kv_log r"
  by (simp add: R2_get_callback_def Let_def split: sum.splits option.splits)


lemma R2_var_entry:
  "R2_entry (vars r) name = Some e \<Longrightarrow>
     fst (R2_var name r) = (case entry_value e of Some v \<Rightarrow> v | None \<Rightarrow> inherited_value (vars r))"
  by (simp add: R2_var_def and_value_entry)

lemma fold_register:
  "R2_entry (vars (fold (\<lambda>key r. r\<lparr>vars := R2_set_prop key (f key) (vars r)\<rparr>) ks r)) name
     = (if name \<in> set ks then Some (f name) else R2_entry (vars r) name)"
  by (induction ks arbitrary: r) (auto simp add: R2_entry_set_prop)

lemma R2_task_entries:
  "R2_entry (vars (snd (R2_task vs r))) name =
     (if name \<in> set (Object_keys vs)
      then Some \<lparr>entry_path = js_prop vs name, entry_value = None\<rparr>
      else R2_entry (vars r) name)"
  by (simp add: R2_task_def fold_register)

lemma R2_task_log: "kv_log (snd (R2_task vs r)) = kv_log r"
proof -
  have "kv_log (fold (\<lambda>key r. r\<lparr>vars := g key r\<rparr>) ks r) = kv_log r"
    for ks and g :: "string \<Rightarrow> entries_object resolver \<Rightarrow> entries_object"
    by (induction ks arbitrary: r) simp_all
  then show ?thesis by (simp add: R2_task_def)
qed

lemma R2_task_inherited_value:
  "inherited_value (vars (snd (R2_task vs r))) = inherited_value (vars r)"
proof -
  have "prototype_value (vars (fold (\<lambda>key r. r\<lparr>vars := R2_set_prop key (f key) (vars r)\<rparr>) ks r))
          = prototype_value (vars r)" for ks f
    by (induction ks arbitrary: r) (simp_all add: R2_set_prop_def)
  then show ?thesis by (simp add: R2_task_def inherited_value_def)
qed


lemma js_prop_distinct: "distinct (Object_keys vs) \<Longrightarrow> (name, key) \<in> set vs \<Longrightarrow> js_prop vs name = key"
  by (simp add: js_prop_def Object_keys_def)


lemma R2_invoke_fst: "fst (R2_invoke vs r) = Promise_all (length (Object_keys vs))"
  by (simp add: R2_invoke_def)

lemma R2_invoke_log:
  "kv_log (snd (R2_invoke vs r)) = kv_log r @ map (\<lambda>key. KvGet (js_prop vs key)) (Object_keys vs)"
proof -
  have "kv_log (fold (\<lambda>key. R2_get_call key (js_prop vs key)) ks r)
          = kv_log r @ map (\<lambda>key. KvGet (js_prop vs key)) ks" for ks
    by (induction ks arbitrary: r) (simp_all add: R2_get_call_def)
  then show ?thesis by (simp add: R2_invoke_def)
qed

lemma R2_invoke_vars: "vars (snd (R2_invoke vs r)) = vars r"
proof -
  have "vars (fold (\<lambda>key. R2_get_call key (js_prop vs key)) ks r) = vars r" for ks
    by (induction ks arbitrary: r) (simp_all add: R2_get_call_def)
  then show ?thesis by (simp add: R2_invoke_def)
qed

subsection \<open>The mapping version: bulk resolutions\<close>

lemma R2_complete_fst:
  "fst (R2_complete vs (i, reply) st) =
     (if i < length (Object_keys vs)
      then settle_all i (fst (R2_get_callback (Object_keys vs ! i) reply (snd st))) (fst st)
      else fst st)"
  by (cases st) (simp add: R2_complete_def split: prod.splits)

lemma R2_complete_snd:
  "snd (R2_complete vs (i, reply) st) =
     (if i < length (Object_keys vs)
      then snd (R2_get_callback (Object_keys vs ! i) reply (snd st))
      else snd st)"
  by (cases st) (simp add: R2_complete_def split: prod.splits)

lemma R2_complete_log: "kv_log (snd (R2_complete vs ev st)) = kv_log (snd st)"
  by (cases ev) (simp add: R2_complete_snd R2_get_callback_log)

lemma R2_fold_log: "kv_log (snd (fold (R2_complete vs) evs st)) = kv_log (snd st)"
  by (induction evs arbitrary: st) (simp_all add: R2_complete_log)

lemma R2_run_log:
  "kv_log (snd (R2_run vs evs r)) = kv_log r @ map (\<lambda>key. KvGet (js_prop vs key)) (Object_keys vs)"
  by (simp add: R2_run_def R2_fold_log R2_invoke_log)



lemma R2_fold_size: "pa_size (fst (fold (R2_complete vs) evs st)) = pa_size (fst st)"
proof (induction evs arbitrary: st)
  case Nil
  then show ?case by simp
next
  case (Cons ev evs)
  obtain i reply where "ev = (i, reply)" by (cases ev)
  then have "pa_size (fst (R2_complete vs ev st)) = pa_size (fst st)"
    by (simp add: R2_complete_fst settle_all_size)
  with Cons.IH show ?case by simp
qed

lemma R2_complete_Failed:
  "pa_state (fst st) = Failed e \<Longrightarrow> pa_state (fst (R2_complete vs ev st)) = Failed e"
  by (cases ev) (simp add: R2_complete_fst settle_all_Failed)

lemma R2_fold_Failed:
  "pa_state (fst st) = Failed e \<Longrightarrow> pa_state (fst (fold (R2_complete vs) evs st)) = Failed e"
  by (induction evs arbitrary: st) (simp_all add: R2_complete_Failed)

lemma R2_fold_inv:
  assumes "pa_inv (fst st)" and "\<forall>ev\<in>set evs. \<not> isl (snd ev)"
  shows "pa_inv (fst (fold (R2_complete vs) evs st)) \<and>
         dom (pa_vals (fst (fold (R2_complete vs) evs st))) \<subseteq> dom (pa_vals (fst st)) \<union> fst ` set evs"
  using assms
proof (induction evs arbitrary: st)
  case Nil
  then show ?case by simp
next
  case (Cons ev evs)
  obtain i reply where ev: "ev = (i, reply)" by (cases ev)
  from Cons.prems(2) ev obtain res where reply: "reply = Inr res" by (cases reply) auto
  let ?st = "R2_complete vs ev st"
  have inv: "pa_inv (fst ?st)"
    using Cons.prems(1)
    by (auto simp add: ev reply R2_complete_fst R2_get_callback_not_Rejected
          intro: pa_inv_settle_all)
  have dom: "dom (pa_vals (fst ?st)) \<subseteq> insert i (dom (pa_vals (fst st)))"
    by (auto simp add: ev reply R2_complete_fst settle_all_dom split: if_splits settled.splits)
  have IH: "pa_inv (fst (fold (R2_complete vs) evs ?st)) \<and>
         dom (pa_vals (fst (fold (R2_complete vs) evs ?st))) \<subseteq> dom (pa_vals (fst ?st)) \<union> fst ` set evs"
    using Cons.IH [OF inv] Cons.prems(2) by simp
  have "fst ` set (ev # evs) = insert i (fst ` set evs)" by (simp add: ev)
  with IH dom show ?case
    unfolding fold_simps by blast
qed



lemma R2_fold_vars_other:
  assumes "\<forall>j res. (j, Inr res) \<in> set evs \<and> j < length (Object_keys vs) \<longrightarrow> Object_keys vs ! j \<noteq> name"
  shows "R2_entry (vars (snd (fold (R2_complete vs) evs st))) name = R2_entry (vars (snd st)) name"
  using assms
proof (induction evs arbitrary: st)
  case Nil
  then show ?case by simp
next
  case (Cons ev evs)
  obtain i reply where ev: "ev = (i, reply)" by (cases ev)
  have "R2_entry (vars (snd (R2_complete vs ev st))) name = R2_entry (vars (snd st)) name"
    using Cons.prems
    by (auto simp add: ev R2_complete_snd R2_get_callback_entries split: sum.splits option.splits)
  moreover have "\<forall>j res. (j, Inr res) \<in> set evs \<and> j < length (Object_keys vs)
          \<longrightarrow> Object_keys vs ! j \<noteq> name"
    using Cons.prems by auto
  ultimately show ?case using Cons.IH [of "R2_complete vs ev st"] by simp
qed

lemma R2_fold_vars_fetched:
  assumes "distinct (Object_keys vs)" and "distinct (map fst evs)"
    and "(i, Inr res) \<in> set evs" and "i < length (Object_keys vs)"
    and "R2_entry (vars (snd st)) (Object_keys vs ! i) = Some vr"
  shows "R2_entry (vars (snd (fold (R2_complete vs) evs st))) (Object_keys vs ! i)
           = Some (vr\<lparr>entry_value := Some (res_Value res)\<rparr>)"
  using assms(2,3,5)
proof (induction evs arbitrary: st)
  case Nil
  then show ?case by simp
next
  case (Cons ev evs)
  obtain j reply where ev: "ev = (j, reply)" by (cases ev)
  show ?case
  proof (cases "ev = (i, Inr res)")
    case True
    have untouched: "\<forall>k res'. (k, Inr res') \<in> set evs \<and> k < length (Object_keys vs)
            \<longrightarrow> Object_keys vs ! k \<noteq> Object_keys vs ! i"
    proof (intro allI impI)
      fix k res'
      assume k: "(k, Inr res') \<in> set evs \<and> k < length (Object_keys vs)"
      then have "k \<in> fst ` set evs" by force
      with Cons.prems(1) True have "k \<noteq> i" by auto
      with k assms(1,4) show "Object_keys vs ! k \<noteq> Object_keys vs ! i"
        by (simp add: nth_eq_iff_index_eq)
    qed
    have "R2_entry (vars (snd (R2_complete vs ev st))) (Object_keys vs ! i)
            = Some (vr\<lparr>entry_value := Some (res_Value res)\<rparr>)"
      using True Cons.prems(3) assms(4) by (simp add: R2_complete_snd R2_get_callback_entries)
    then show ?thesis
      using R2_fold_vars_other [OF untouched] by simp
  next
    case False
    with Cons.prems(2) have mem: "(i, Inr res) \<in> set evs" by simp
    then have "i \<in> fst ` set evs" by force
    with Cons.prems(1) ev have "j \<noteq> i" by auto
    then have "j < length (Object_keys vs) \<Longrightarrow> Object_keys vs ! j \<noteq> Object_keys vs ! i"
      using assms(1,4) by (simp add: nth_eq_iff_index_eq)
    then have "R2_entry (vars (snd (R2_complete vs ev st))) (Object_keys vs ! i) = Some vr"
      using Cons.prems(3)
      by (auto simp add: ev R2_complete_snd R2_get_callback_entries split: sum.splits option.splits)
    with Cons.IH [OF _ mem] Cons.prems(1) show ?thesis by simp
  qed
qed

lemma R2_run_vars_fetched:
  assumes "distinct (Object_keys vs)" and "distinct (map fst evs)"
    and "(i, Inr res) \<in> set evs" and "i < length (Object_keys vs)"
    and "R2_entry (vars r) (Object_keys vs ! i) = Some vr"
  shows "fst (R2_var (Object_keys vs ! i) (snd (R2_run vs evs r))) = res_Value res"
proof -
  have "R2_entry (vars (snd (R2_run vs evs r))) (Object_keys vs ! i)
          = Some (vr\<lparr>entry_value := Some (res_Value res)\<rparr>)"
    unfolding R2_run_def using assms
    by (intro R2_fold_vars_fetched) (simp_all add: R2_invoke_vars)
  then show ?thesis by (simp add: R2_var_entry)
qed

lemma R2_run_fails:
  assumes "\<forall>ev\<in>set pre. \<not> isl (snd ev)" and "i < length (Object_keys vs)"
    and "i \<notin> fst ` set pre"
  shows "pa_state (fst (R2_run vs (pre @ (i, Inl err) # post) r)) = Failed err"
proof -
  let ?st = "fold (R2_complete vs) pre (R2_invoke vs r)"
  have inv: "pa_inv (fst ?st)" and dom: "dom (pa_vals (fst ?st)) \<subseteq> fst ` set pre"
    using R2_fold_inv [of "R2_invoke vs r" pre vs] assms(1)
    by (simp_all add: R2_invoke_fst pa_inv_Promise_all) (simp add: Promise_all_def)
  have "pa_size (fst ?st) = length (Object_keys vs)"
    by (simp add: R2_fold_size R2_invoke_fst Promise_all_def)
  with inv dom assms(2,3) have "pa_state (fst ?st) = Pending"
    by (intro pa_inv_not_covered [of _ i]) auto
  then have "pa_state (fst (R2_complete vs (i, Inl err) ?st)) = Failed err"
    using assms(2) by (simp add: R2_complete_fst R2_get_callback_fst settle_all_Rejected)
  then show ?thesis
    by (simp add: R2_run_def R2_fold_Failed)
qed



subsection \<open>The mapping version: a write\<close>

text \<open>
  A successful \<^verbatim>\<open>set\<close> of the mapping version, for every name: one write, and the entry
  \<^verbatim>\<open>{path, value}\<close> is what \<^verbatim>\<open>this._vars[name]\<close> gives afterwards.
\<close>

lemma R2_set_writes_through:
  "(let pv = R2_set_args name path val;
        r1 = R2_set_call name path val r;
        r2 = snd (R2_set_callback name path val None r1)
    in fst (R2_set_callback name path val None r1) = Resolved ()
       \<and> kv_log r2 = kv_log r @ [KvSet (fst pv) (snd pv)]
       \<and> R2_entry (vars r2) name = Some \<lparr>entry_path = fst pv, entry_value = Some (snd pv)\<rparr>
       \<and> R2_var name r2 = (snd pv, r2))"
  by (simp add: R2_set_call_def R2_set_callback_def Let_def split_def R2_entry_set_prop
        R2_var_def and_value_entry)

subsection \<open>The list version: methods and callbacks\<close>

lemma props_set_prop:
  "props (set_prop k v obj) name =
     (if name = k \<and> \<not> (k = ''__proto__'' \<and> props obj k = None \<and> \<not> null_prototype obj)
      then Some v else props obj name)"
  by (auto simp add: set_prop_def)

lemma get_prop_own: "props obj name = Some v \<Longrightarrow> get_prop obj name = Prim v"
  by (simp add: get_prop_def)

lemma R1_get_callback_fst:
  "fst (R1_get_callback name reply r) =
     (case reply of Inl err \<Rightarrow> Rejected err | Inr res \<Rightarrow> Resolved (res_Value res))"
  by (simp add: R1_get_callback_def Let_def split: sum.splits)

lemma R1_get_callback_vars:
  "vars (snd (R1_get_callback name reply r)) =
     (case reply of Inl err \<Rightarrow> vars r | Inr res \<Rightarrow> set_prop name (res_Value res) (vars r))"
  by (simp add: R1_get_callback_def Let_def split: sum.splits)

lemma R1_get_callback_log: "kv_log (snd (R1_get_callback name reply r)) = kv_log r"
  by (simp add: R1_get_callback_def Let_def split: sum.splits)

lemma R1_task_stores_nothing: "snd (R1_task keys r) = r"
  by (simp add: R1_task_def)

lemma R1_invoke_fst: "fst (R1_invoke keys r) = Promise_all (length keys)"
  by (simp add: R1_invoke_def)

lemma R1_invoke_log:
  "kv_log (snd (R1_invoke keys r)) = kv_log r @ map (\<lambda>key. KvGet (Str key)) keys"
proof -
  have "kv_log (fold R1_get_call ks r) = kv_log r @ map (\<lambda>key. KvGet (Str key)) ks" for ks
    by (induction ks arbitrary: r) (simp_all add: R1_get_call_def)
  then show ?thesis by (simp add: R1_invoke_def)
qed

lemma R1_invoke_vars: "vars (snd (R1_invoke keys r)) = vars r"
proof -
  have "vars (fold R1_get_call ks r) = vars r" for ks
    by (induction ks arbitrary: r) (simp_all add: R1_get_call_def)
  then show ?thesis by (simp add: R1_invoke_def)
qed

text \<open>
  A successful \<^verbatim>\<open>set\<close> of the list version, for every name other than
  \<^verbatim>\<open>__proto__\<close>.
\<close>

lemma R1_set_writes_through:
  assumes "name \<noteq> ''__proto__''"
  shows "(let r1 = R1_set_call name val r;
              r2 = snd (R1_set_callback name val None r1)
          in fst (R1_set_callback name val None r1) = Resolved ()
             \<and> kv_log r2 = kv_log r @ [KvSet (Str name) val]
             \<and> R1_var name r2 = (Prim val, r2))"
  using assms
  by (simp add: R1_set_call_def R1_set_callback_def R1_var_def Let_def get_prop_set_prop)

subsection \<open>The list version: bulk resolutions\<close>

lemma R1_complete_fst:
  "fst (R1_complete keys (i, reply) st) =
     (if i < length keys
      then settle_all i (fst (R1_get_callback (keys ! i) reply (snd st))) (fst st)
      else fst st)"
  by (cases st) (simp add: R1_complete_def split: prod.splits)

lemma R1_complete_snd:
  "snd (R1_complete keys (i, reply) st) =
     (if i < length keys then snd (R1_get_callback (keys ! i) reply (snd st)) else snd st)"
  by (cases st) (simp add: R1_complete_def split: prod.splits)

lemma R1_complete_log: "kv_log (snd (R1_complete keys ev st)) = kv_log (snd st)"
  by (cases ev) (simp add: R1_complete_snd R1_get_callback_log)

lemma R1_fold_log: "kv_log (snd (fold (R1_complete keys) evs st)) = kv_log (snd st)"
  by (induction evs arbitrary: st) (simp_all add: R1_complete_log)

lemma R1_run_log: "kv_log (snd (R1_run keys evs r)) = kv_log r @ map (\<lambda>key. KvGet (Str key)) keys"
  by (simp add: R1_run_def R1_fold_log R1_invoke_log)

lemma R1_fold_size: "pa_size (fst (fold (R1_complete keys) evs st)) = pa_size (fst st)"
proof (induction evs arbitrary: st)
  case Nil
  then show ?case by simp
next
  case (Cons ev evs)
  obtain i reply where "ev = (i, reply)" by (cases ev)
  then have "pa_size (fst (R1_complete keys ev st)) = pa_size (fst st)"
    by (simp add: R1_complete_fst settle_all_size)
  with Cons.IH show ?case by simp
qed

lemma R1_complete_Failed:
  "pa_state (fst st) = Failed e \<Longrightarrow> pa_state (fst (R1_complete keys ev st)) = Failed e"
  by (cases ev) (simp add: R1_complete_fst settle_all_Failed)

lemma R1_fold_Failed:
  "pa_state (fst st) = Failed e \<Longrightarrow> pa_state (fst (fold (R1_complete keys) evs st)) = Failed e"
  by (induction evs arbitrary: st) (simp_all add: R1_complete_Failed)

lemma R1_fold_inv:
  assumes "pa_inv (fst st)" and "\<forall>ev\<in>set evs. \<not> isl (snd ev)"
  shows "pa_inv (fst (fold (R1_complete keys) evs st)) \<and>
         dom (pa_vals (fst (fold (R1_complete keys) evs st))) \<subseteq> dom (pa_vals (fst st)) \<union> fst ` set evs"
  using assms
proof (induction evs arbitrary: st)
  case Nil
  then show ?case by simp
next
  case (Cons ev evs)
  obtain i reply where ev: "ev = (i, reply)" by (cases ev)
  from Cons.prems(2) ev obtain res where reply: "reply = Inr res" by (cases reply) auto
  let ?st = "R1_complete keys ev st"
  have inv: "pa_inv (fst ?st)"
    using Cons.prems(1)
    by (auto simp add: ev reply R1_complete_fst R1_get_callback_fst intro: pa_inv_settle_all)
  have dom: "dom (pa_vals (fst ?st)) \<subseteq> insert i (dom (pa_vals (fst st)))"
    by (auto simp add: ev reply R1_complete_fst R1_get_callback_fst settle_all_dom
          split: if_splits)
  have IH: "pa_inv (fst (fold (R1_complete keys) evs ?st)) \<and>
         dom (pa_vals (fst (fold (R1_complete keys) evs ?st))) \<subseteq> dom (pa_vals (fst ?st)) \<union> fst ` set evs"
    using Cons.IH [OF inv] Cons.prems(2) by simp
  have "fst ` set (ev # evs) = insert i (fst ` set evs)" by (simp add: ev)
  with IH dom show ?case
    unfolding fold_simps by blast
qed

lemma R1_fold_props_other:
  assumes "\<forall>j res. (j, Inr res) \<in> set evs \<and> j < length keys \<longrightarrow> keys ! j \<noteq> name"
  shows "props (vars (snd (fold (R1_complete keys) evs st))) name = props (vars (snd st)) name"
  using assms
proof (induction evs arbitrary: st)
  case Nil
  then show ?case by simp
next
  case (Cons ev evs)
  obtain i reply where ev: "ev = (i, reply)" by (cases ev)
  have "props (vars (snd (R1_complete keys ev st))) name = props (vars (snd st)) name"
    using Cons.prems
    by (auto simp add: ev R1_complete_snd R1_get_callback_vars props_set_prop split: sum.splits)
  moreover have "\<forall>j res. (j, Inr res) \<in> set evs \<and> j < length keys \<longrightarrow> keys ! j \<noteq> name"
    using Cons.prems by auto
  ultimately show ?case using Cons.IH [of "R1_complete keys ev st"] by simp
qed

lemma R1_fold_props_fetched:
  assumes "distinct keys" and "distinct (map fst evs)"
    and "(i, Inr res) \<in> set evs" and "i < length keys" and "keys ! i \<noteq> ''__proto__''"
  shows "props (vars (snd (fold (R1_complete keys) evs st))) (keys ! i) = Some (res_Value res)"
  using assms(2,3)
proof (induction evs arbitrary: st)
  case Nil
  then show ?case by simp
next
  case (Cons ev evs)
  show ?case
  proof (cases "ev = (i, Inr res)")
    case True
    have untouched: "\<forall>k res'. (k, Inr res') \<in> set evs \<and> k < length keys
            \<longrightarrow> keys ! k \<noteq> keys ! i"
    proof (intro allI impI)
      fix k res'
      assume k: "(k, Inr res') \<in> set evs \<and> k < length keys"
      then have "k \<in> fst ` set evs" by force
      with Cons.prems(1) True have "k \<noteq> i" by auto
      with k assms(1,4) show "keys ! k \<noteq> keys ! i"
        by (simp add: nth_eq_iff_index_eq)
    qed
    have "props (vars (snd (R1_complete keys ev st))) (keys ! i) = Some (res_Value res)"
      using True assms(4,5) by (simp add: R1_complete_snd R1_get_callback_vars props_set_prop)
    then show ?thesis
      using R1_fold_props_other [OF untouched] by simp
  next
    case False
    with Cons.prems(2) have mem: "(i, Inr res) \<in> set evs" by simp
    with Cons.IH [OF _ mem] Cons.prems(1) show ?thesis by simp
  qed
qed

lemma R1_run_vars_fetched:
  assumes "distinct keys" and "distinct (map fst evs)"
    and "(i, Inr res) \<in> set evs" and "i < length keys" and "keys ! i \<noteq> ''__proto__''"
  shows "fst (R1_var (keys ! i) (snd (R1_run keys evs r))) = Prim (res_Value res)"
proof -
  have "props (vars (snd (R1_run keys evs r))) (keys ! i) = Some (res_Value res)"
    unfolding R1_run_def using assms by (intro R1_fold_props_fetched)
  then show ?thesis by (simp add: R1_var_def get_prop_own)
qed

lemma R1_run_fails:
  assumes "\<forall>ev\<in>set pre. \<not> isl (snd ev)" and "i < length keys"
    and "i \<notin> fst ` set pre"
  shows "pa_state (fst (R1_run keys (pre @ (i, Inl err) # post) r)) = Failed err"
proof -
  let ?st = "fold (R1_complete keys) pre (R1_invoke keys r)"
  have inv: "pa_inv (fst ?st)" and dom: "dom (pa_vals (fst ?st)) \<subseteq> fst ` set pre"
    using R1_fold_inv [of "R1_invoke keys r" pre keys] assms(1)
    by (simp_all add: R1_invoke_fst pa_inv_Promise_all) (simp add: Promise_all_def)
  have "pa_size (fst ?st) = length keys"
    by (simp add: R1_fold_size R1_invoke_fst Promise_all_def)
  with inv dom assms(2,3) have "pa_state (fst ?st) = Pending"
    by (intro pa_inv_not_covered [of _ i]) auto
  then have "pa_state (fst (R1_complete keys (i, Inl err) ?st)) = Failed err"
    using assms(2) by (simp add: R1_complete_fst R1_get_callback_fst settle_all_Rejected)
  then show ?thesis
    by (simp add: R1_run_def R1_fold_Failed)
qed

subsection \<open>A bulk resolution that fails\<close>

text \<open>
  The mapping version, for every name: the closure's callback is called with the first
  error, and the names whose reads completed before hold the fetched values, then and
  after the remaining completions.
\<close>

lemma R2_bulk_failure:
  assumes "distinct (Object_keys vs)"
    and "completions (length (Object_keys vs)) (pre @ (i, Inl err) # post)"
    and "\<forall>ev\<in>set pre. \<not> isl (snd ev)"
  shows "R2_cb (fst (R2_run vs (pre @ [(i, Inl err)]) (snd (R2_task vs r0)))) = Some (Cb_err err)"
    and "R2_cb (fst (R2_run vs (pre @ (i, Inl err) # post) (snd (R2_task vs r0)))) = Some (Cb_err err)"
    and "(j, Inr res) \<in> set pre \<Longrightarrow>
           fst (R2_var (Object_keys vs ! j) (snd (R2_run vs (pre @ [(i, Inl err)]) (snd (R2_task vs r0)))))
             = res_Value res
           \<and> fst (R2_var (Object_keys vs ! j)
                 (snd (R2_run vs (pre @ (i, Inl err) # post) (snd (R2_task vs r0)))))
             = res_Value res"
proof -
  let ?keys = "Object_keys vs"
  let ?r1 = "snd (R2_task vs r0)"
  let ?err = "pre @ [(i, Inl err)]"
  let ?end = "pre @ (i, Inl err) # post"
  have i: "i < length ?keys" and fresh: "i \<notin> fst ` set pre"
    and d_end: "distinct (map fst ?end)" and d_err: "distinct (map fst ?err)"
    using assms(2) by (auto simp add: completions_def)
  have "pa_state (fst (R2_run vs ?err ?r1)) = Failed err"
    using R2_run_fails [OF assms(3) i fresh, of err "[]"] by simp
  then show "R2_cb (fst (R2_run vs ?err ?r1)) = Some (Cb_err err)"
    by (simp add: R2_cb_def)
  have "pa_state (fst (R2_run vs ?end ?r1)) = Failed err"
    using R2_run_fails [OF assms(3) i fresh] .
  then show "R2_cb (fst (R2_run vs ?end ?r1)) = Some (Cb_err err)"
    by (simp add: R2_cb_def)
  assume mem: "(j, Inr res) \<in> set pre"
  then have "(j, Inr res) \<in> set ?end" by simp
  with assms(2) have "fst (j, Inr res :: get_reply) < length ?keys"
    unfolding completions_def by blast
  then have j: "j < length ?keys" by simp
  then have "?keys ! j \<in> set ?keys" by simp
  then obtain vr where vr: "R2_entry (vars ?r1) (?keys ! j) = Some vr"
    by (simp add: R2_task_entries)
  from mem have "(j, Inr res) \<in> set ?err" by simp
  from R2_run_vars_fetched [OF assms(1) d_err this j vr]
       R2_run_vars_fetched [OF assms(1) d_end \<open>(j, Inr res) \<in> set ?end\<close> j vr]
  show "fst (R2_var (?keys ! j) (snd (R2_run vs ?err ?r1))) = res_Value res
        \<and> fst (R2_var (?keys ! j) (snd (R2_run vs ?end ?r1))) = res_Value res"
    by simp
qed

text \<open>
  The list version: the promise of the closure is rejected with the first error, for every
  array of names; the names other than \<^verbatim>\<open>__proto__\<close> whose reads completed before hold
  the fetched values.
\<close>

lemma R1_bulk_failure:
  assumes "distinct keys"
    and "completions (length keys) (pre @ (i, Inl err) # post)"
    and "\<forall>ev\<in>set pre. \<not> isl (snd ev)"
  shows "R1_result keys (fst (R1_run keys (pre @ [(i, Inl err)]) r)) = Failed err"
    and "R1_result keys (fst (R1_run keys (pre @ (i, Inl err) # post) r)) = Failed err"
    and "(j, Inr res) \<in> set pre \<Longrightarrow> keys ! j \<noteq> ''__proto__'' \<Longrightarrow>
           fst (R1_var (keys ! j) (snd (R1_run keys (pre @ [(i, Inl err)]) r))) = Prim (res_Value res)
           \<and> fst (R1_var (keys ! j) (snd (R1_run keys (pre @ (i, Inl err) # post) r)))
               = Prim (res_Value res)"
proof -
  let ?err = "pre @ [(i, Inl err)]"
  let ?end = "pre @ (i, Inl err) # post"
  have i: "i < length keys" and fresh: "i \<notin> fst ` set pre"
    and d_end: "distinct (map fst ?end)" and d_err: "distinct (map fst ?err)"
    using assms(2) by (auto simp add: completions_def)
  have "pa_state (fst (R1_run keys ?err r)) = Failed err"
    using R1_run_fails [OF assms(3) i fresh, of err "[]"] by simp
  then show "R1_result keys (fst (R1_run keys ?err r)) = Failed err"
    by (simp add: R1_result_def)
  have "pa_state (fst (R1_run keys ?end r)) = Failed err"
    using R1_run_fails [OF assms(3) i fresh] .
  then show "R1_result keys (fst (R1_run keys ?end r)) = Failed err"
    by (simp add: R1_result_def)
  assume mem: "(j, Inr res) \<in> set pre" and name: "keys ! j \<noteq> ''__proto__''"
  then have "(j, Inr res) \<in> set ?end" by simp
  with assms(2) have "fst (j, Inr res :: get_reply) < length keys"
    unfolding completions_def by blast
  then have j: "j < length keys" by simp
  from mem have "(j, Inr res) \<in> set ?err" by simp
  from R1_run_vars_fetched [OF assms(1) d_err this j name]
       R1_run_vars_fetched [OF assms(1) d_end \<open>(j, Inr res) \<in> set ?end\<close> j name]
  show "fst (R1_var (keys ! j) (snd (R1_run keys ?err r))) = Prim (res_Value res)
        \<and> fst (R1_var (keys ! j) (snd (R1_run keys ?end r))) = Prim (res_Value res)"
    by simp
qed

subsection \<open>A read of a key that is not set\<close>

lemma R1_unset_key:
  assumes "name \<noteq> ''__proto__''"
  shows "fst (R1_get_callback name (Inr None) r) = Resolved Undefined
         \<and> fst (R1_var name (snd (R1_get_callback name (Inr None) r))) = Prim Undefined"
  using assms by (simp add: R1_get_callback_def R1_var_def get_prop_set_prop)

lemma R2_unset_key:
  assumes "R2_entry (vars r) name = Some e"
  shows "fst (R2_get_callback name (Inr None) r) = Resolved Undefined
         \<and> R2_entry (vars (snd (R2_get_callback name (Inr None) r))) name
             = Some (e\<lparr>entry_value := Some Undefined\<rparr>)
         \<and> fst (R2_var name (snd (R2_get_callback name (Inr None) r))) = Undefined"
proof -
  have "name \<in> dom (R2_entry (vars r))" using assms by blast
  then have "fst (R2_get_callback name (Inr None) r) = Resolved Undefined"
    using R2_get_callback_Resolved [of name r None] by simp
  moreover have "R2_entry (vars (snd (R2_get_callback name (Inr None) r))) name
             = Some (e\<lparr>entry_value := Some Undefined\<rparr>)"
    using assms by (simp add: R2_get_callback_entries)
  ultimately show ?thesis by (simp add: R2_var_entry)
qed

subsection \<open>Histories\<close>

lemma R1_step_props:
  "name \<notin> set (R1_names act) \<Longrightarrow> props (vars (R1_step act r)) name = props (vars r) name"
  by (cases act)
     (auto simp add: R1_task_def R1_invoke_vars R1_get_call_def R1_get_callback_vars
        R1_set_call_def R1_set_callback_def R1_var_def props_set_prop
        split: sum.splits option.splits)

lemma R1_steps_props:
  "name \<notin> set (concat (map R1_names acts)) \<Longrightarrow>
     props (vars (fold R1_step acts r)) name = props (vars r) name"
  by (induction acts arbitrary: r) (simp_all add: R1_step_props)

text \<open>
  The list version: after any history that does not touch \<open>name\<close>, a name that
  \<^verbatim>\<open>Object.prototype\<close> does not define is looked up as \<^verbatim>\<open>undefined\<close>.
\<close>

lemma R1_unknown_name:
  assumes "name \<notin> set (concat (map R1_names acts))"
    and "name \<noteq> ''__proto__''" and "name \<notin> set Object_prototype_functions"
  shows "fst (R1_var name (fold R1_step acts R1_Resolver)) = Prim Undefined"
proof -
  have "props (vars (fold R1_step acts R1_Resolver)) name = None"
    using R1_steps_props [OF assms(1), of R1_Resolver]
    by (simp add: R1_Resolver_def new_object_def)
  with assms(2,3) show ?thesis
    by (simp add: R1_var_def get_prop_def)
qed

lemma untouched_set_prop:
  "untouched name obj \<Longrightarrow> k \<noteq> name \<Longrightarrow> k \<noteq> ''__proto__'' \<Longrightarrow>
     untouched name (R2_set_prop k e obj)"
  by (simp add: untouched_def R2_set_prop_def)

lemma untouched_set_value:
  assumes "untouched name obj" and "k \<noteq> name" and "k \<noteq> ''__proto__''"
    and "R2_set_value k val obj = Some obj'"
  shows "untouched name obj'"
proof (cases "R2_get_prop obj k")
  case (Own_entry e)
  with assms show ?thesis by (auto simp add: R2_set_value_def untouched_def)
next
  case (Prototype_entry e)
  with assms(1,3) show ?thesis
    by (auto simp add: R2_get_prop_def Object_prototype_get_def untouched_def
          split: option.splits if_splits)
next
  case Object_prototype_ref
  with assms(1,3) show ?thesis
    by (auto simp add: R2_get_prop_def Object_prototype_get_def untouched_def
          split: option.splits if_splits)
next
  case (Function_ref f)
  with assms(1,3) have "f = k"
    by (auto simp add: R2_get_prop_def Object_prototype_get_def untouched_def
          split: option.splits if_splits)
  with Function_ref assms show ?thesis by (auto simp add: R2_set_value_def untouched_def)
next
  case (Primitive p)
  with assms(4) show ?thesis by (simp add: R2_set_value_def)
qed

lemma untouched_task:
  assumes "untouched name (vars r)" and "name \<notin> set ks" and "''__proto__'' \<notin> set ks"
  shows "untouched name (vars (fold (\<lambda>key r. r\<lparr>vars := R2_set_prop key (f key) (vars r)\<rparr>) ks r))"
  using assms
proof (induction ks arbitrary: r)
  case Nil
  then show ?case by simp
next
  case (Cons k ks)
  from Cons.prems have "k \<noteq> name" and "k \<noteq> ''__proto__''" by auto
  with Cons.prems(1) have "untouched name (R2_set_prop k (f k) (vars r))"
    by (intro untouched_set_prop)
  with Cons.IH [of "r\<lparr>vars := R2_set_prop k (f k) (vars r)\<rparr>"] Cons.prems(2,3)
  show ?case by simp
qed

lemma untouched_step:
  assumes "untouched name (vars r)" and "name \<notin> set (R2_names act)"
    and "''__proto__'' \<notin> set (R2_names act)"
  shows "untouched name (vars (R2_step act r))"
proof (cases act)
  case (R2_Task vs)
  with assms show ?thesis by (simp add: R2_task_def untouched_task)
next
  case (R2_Invoke vs)
  with assms show ?thesis by (simp add: R2_invoke_vars)
next
  case (R2_Get k path)
  with assms show ?thesis by (simp add: R2_get_call_def)
next
  case (R2_Get_done k reply)
  show ?thesis
  proof (cases reply)
    case (Inl err)
    with R2_Get_done assms show ?thesis by (simp add: R2_get_callback_def)
  next
    case (Inr res)
    show ?thesis
    proof (cases "R2_set_value k (res_Value res) (vars r)")
      case None
      with Inr R2_Get_done assms show ?thesis by (simp add: R2_get_callback_def)
    next
      case (Some obj)
      with untouched_set_value [OF assms(1) _ _ Some] R2_Get_done assms(2,3) Inr show ?thesis
        by (simp add: R2_get_callback_def)
    qed
  qed
next
  case (R2_Set k path val)
  with assms show ?thesis by (simp add: R2_set_call_def split_def)
next
  case (R2_Set_done k path val reply)
  with assms show ?thesis
    by (simp add: R2_set_callback_def split_def untouched_set_prop split: option.splits)
next
  case (R2_Var k)
  with assms show ?thesis by (simp add: R2_var_def)
qed

lemma untouched_steps:
  assumes "untouched name (vars r)" and "name \<notin> set (concat (map R2_names acts))"
    and "''__proto__'' \<notin> set (concat (map R2_names acts))"
  shows "untouched name (vars (fold R2_step acts r))"
  using assms
proof (induction acts arbitrary: r)
  case Nil
  then show ?case by simp
next
  case (Cons act acts)
  from Cons.prems have "untouched name (vars (R2_step act r))"
    by (intro untouched_step) simp_all
  with Cons.IH [of "R2_step act r"] Cons.prems(2,3) show ?case by simp
qed

lemma untouched_var: "untouched name (vars r) \<Longrightarrow> fst (R2_var name r) = Undefined"
  by (simp add: untouched_def R2_var_def R2_get_prop_def Object_prototype_get_def and_value_def
        inherited_value_def)

text \<open>
  The mapping version: after any history that touches neither \<open>name\<close> nor
  \<^verbatim>\<open>__proto__\<close>, \<^verbatim>\<open>var(name)\<close> is \<^verbatim>\<open>undefined\<close>, for every name.
\<close>

lemma R2_unknown_name:
  assumes "name \<notin> set (concat (map R2_names acts))"
    and "''__proto__'' \<notin> set (concat (map R2_names acts))"
  shows "fst (R2_var name (fold R2_step acts R2_Resolver)) = Undefined"
proof -
  have "untouched name (vars R2_Resolver)"
    by (simp add: untouched_def R2_Resolver_def new_entries_object_def)
  from untouched_steps [OF this assms] show ?thesis by (rule untouched_var)
qed

section \<open>The claims\<close>



text \<open>
  C2. A successful \<^verbatim>\<open>set\<close> is claimed to cache the value for every name, so that
  \<^verbatim>\<open>var(name)\<close> returns it. The list version does not for the name \<^verbatim>\<open>__proto__\<close>:
  on a new resolver \<^verbatim>\<open>set('__proto__', 'v')\<close> hands the write to the client and resolves,
  but the assignment \<^verbatim>\<open>this._vars['__proto__'] = 'v'\<close> reaches the setter of
  \<^verbatim>\<open>Object.prototype\<close>, which ignores a primitive value: \<^verbatim>\<open>this._vars\<close> is unchanged and
  \<^verbatim>\<open>var('__proto__')\<close> returns \<^verbatim>\<open>Object.prototype\<close>. (The mapping version caches for
  every name, lemma \<open>R2_set_writes_through\<close>; the list version for every other name, lemma
  \<open>R1_set_writes_through\<close>.)
\<close>

theorem C2_set_proto_is_not_cached:
  "(let r1 = R1_set_call ''__proto__'' (Str ''v'') R1_Resolver;
        res = R1_set_callback ''__proto__'' (Str ''v'') None r1
    in fst res = Resolved ()
       \<and> kv_log (snd res) = [KvSet (Str ''__proto__'') (Str ''v'')]
       \<and> vars (snd res) = new_object
       \<and> fst (R1_var ''__proto__'' (snd res)) = Object_prototype)"
  by (simp add: R1_set_call_def R1_set_callback_def R1_Resolver_def R1_var_def set_prop_def
        get_prop_def new_object_def Let_def)

text \<open>
  C3. A bulk resolution in which a read fails is claimed to fail with the first error, to
  leave the values fetched before in the cache and to read every key once. In the list
  version the fetched value of the name \<^verbatim>\<open>__proto__\<close> is not in the cache: for the names
  \<^verbatim>\<open>['__proto__', 'b']\<close>, where the first read completes with \<^verbatim>\<open>'v1'\<close> and the second
  with an error, the promise is rejected with that error and each key has been read once,
  but \<^verbatim>\<open>this._vars\<close> is unchanged and \<^verbatim>\<open>var('__proto__')\<close> returns
  \<^verbatim>\<open>Object.prototype\<close>. (The mapping version does what is claimed for every name, lemma
  \<open>R2_bulk_failure\<close>; the list version for the other names, lemma \<open>R1_bulk_failure\<close>.)
\<close>

theorem C3_bulk_failure_proto_is_not_cached:
  "(let keys = [''__proto__'', ''b''];
        st = R1_run keys [(0, Inr (Some (Item (Str ''v1'')))), (1, Inl (Error ''store''))]
               R1_Resolver
    in R1_result keys (fst st) = Failed (Error ''store'')
       \<and> kv_log (snd st) = [KvGet (Str ''__proto__''), KvGet (Str ''b'')]
       \<and> vars (snd st) = new_object
       \<and> fst (R1_var ''__proto__'' (snd st)) = Object_prototype)"
  by (simp add: R1_run_def R1_invoke_def R1_get_call_def R1_complete_def R1_get_callback_def
        R1_result_def R1_Resolver_def R1_var_def Promise_all_def settle_all_def set_prop_def
        get_prop_def new_object_def Let_def)

text \<open>
  C4. When the client reports an error to the callback of a single read or of a write,
  the promise is rejected with that error and \<^verbatim>\<open>this._vars\<close> is what it was before
  the method was called, in both versions.
\<close>

theorem C4_failure_leaves_cache:
  "(let r1 = R2_get_call name path r
    in R2_get_callback name (Inl err) r1 = (Rejected err, r1) \<and> vars r1 = vars r)
   \<and> (let r1 = R2_set_call name path val r
       in R2_set_callback name path val (Some err) r1 = (Rejected err, r1) \<and> vars r1 = vars r)
   \<and> (let r1 = R1_get_call name r'
       in R1_get_callback name (Inl err) r1 = (Rejected err, r1) \<and> vars r1 = vars r')
   \<and> (let r1 = R1_set_call name val r'
       in R1_set_callback name val (Some err) r1 = (Rejected err, r1) \<and> vars r1 = vars r')"
  by (simp add: R2_get_call_def R2_get_callback_def R2_set_call_def R2_set_callback_def
        R2_set_args_def R1_get_call_def R1_get_callback_def R1_set_call_def
        R1_set_callback_def Let_def)

text \<open>
  C5. \<^verbatim>\<open>var(name)\<close> is claimed to return \<^verbatim>\<open>undefined\<close> for every name that was never
  registered, set or resolved. It does not for a name that \<^verbatim>\<open>this._vars\<close> inherits: in
  the list version \<^verbatim>\<open>var('constructor')\<close> on a new resolver returns the function that
  \<^verbatim>\<open>Object.prototype\<close> holds under that name; in the mapping version, after
  \<^verbatim>\<open>set('__proto__', 'p', 0)\<close> has made its entry the prototype of \<^verbatim>\<open>this._vars\<close>,
  \<^verbatim>\<open>var('value')\<close> returns \<^verbatim>\<open>0\<close>. (What holds: lemmas \<open>R1_unknown_name\<close> and
  \<open>R2_unknown_name\<close>.)
\<close>

theorem C5_inherited_name_is_not_undefined:
  "fst (R1_var ''constructor'' R1_Resolver) = Function ''constructor''
   \<and> (let r1 = R2_set_call ''__proto__'' (Str ''p'') (Num 0) R2_Resolver;
           r2 = snd (R2_set_callback ''__proto__'' (Str ''p'') (Num 0) None r1)
       in fst (R2_var ''value'' r2) = Num 0)"
  by (simp add: R1_var_def R1_Resolver_def get_prop_def new_object_def
        Object_prototype_functions_def R2_set_call_def R2_set_callback_def R2_set_args_def
        R2_Resolver_def new_entries_object_def R2_set_prop_def R2_var_def R2_get_prop_def
        and_value_def Let_def)

text \<open>
  C6. \<^verbatim>\<open>var(name)\<close> hands no request to the client and leaves \<^verbatim>\<open>this._vars\<close>
  unchanged: the resolver after the call is the resolver before it, in both versions.
\<close>

theorem C6_var_is_pure:
  "snd (R2_var name r) = r \<and> kv_log (snd (R2_var name r)) = kv_log r
     \<and> vars (snd (R2_var name r)) = vars r
   \<and> snd (R1_var name r') = r' \<and> kv_log (snd (R1_var name r')) = kv_log r'
     \<and> vars (snd (R1_var name r')) = vars r'"
  by (simp add: R2_var_def R1_var_def)

text \<open>
  C7. \<^verbatim>\<open>task(vars)\<close> of the mapping version assigns, for every pair of local name and
  remote key of \<^verbatim>\<open>vars\<close>, an entry that records the remote key and has no value of its
  own, replacing whatever was cached under that name: \<^verbatim>\<open>this._vars[name]\<close> is that entry
  afterwards. This is done by \<^verbatim>\<open>task\<close> itself: the closure is returned, not invoked, and
  no read has been handed to the client. \<^verbatim>\<open>var(name)\<close> then reads the property
  \<^verbatim>\<open>value\<close> that the entry inherits: \<^verbatim>\<open>undefined\<close>, unless \<^verbatim>\<open>_get\<close> has been called
  for the unregistered name \<^verbatim>\<open>__proto__\<close> and has put a property \<^verbatim>\<open>value\<close> on
  \<^verbatim>\<open>Object.prototype\<close>.
\<close>

theorem C7_task_registers:
  assumes "distinct (Object_keys vs)" and "(name, key) \<in> set vs"
  shows "fst (R2_task vs r) = vs
         \<and> R2_entry (vars (snd (R2_task vs r))) name
             = Some \<lparr>entry_path = key, entry_value = None\<rparr>
         \<and> fst (R2_var name (snd (R2_task vs r)))
             = (case prototype_value (vars r) of None \<Rightarrow> Undefined | Some v \<Rightarrow> v)
         \<and> kv_log (snd (R2_task vs r)) = kv_log r"
proof -
  from assms(2) have "name \<in> set (Object_keys vs)"
    by (force simp add: Object_keys_def)
  then have entry: "R2_entry (vars (snd (R2_task vs r))) name
      = Some \<lparr>entry_path = key, entry_value = None\<rparr>"
    using assms by (simp add: R2_task_entries js_prop_distinct)
  have "fst (R2_var name (snd (R2_task vs r))) = inherited_value (vars r)"
    using R2_var_entry [OF entry] by (simp add: R2_task_inherited_value)
  with entry show ?thesis
    by (simp add: R2_task_log inherited_value_def) (simp add: R2_task_def)
qed

theorem C7_task_registers_witness:
  "distinct (Object_keys [(''foo'', Str ''services/app/foo''), (''bar'', Str ''queue'')])
   \<and> (''bar'', Str ''queue'') \<in> set [(''foo'', Str ''services/app/foo''), (''bar'', Str ''queue'')]
   \<and> R2_entry (vars (snd (R2_task [(''foo'', Str ''services/app/foo''), (''bar'', Str ''queue'')]
        (snd (R2_set_callback ''bar'' (Str ''old'') (Str ''v'') None R2_Resolver))))) ''bar''
      = Some \<lparr>entry_path = Str ''queue'', entry_value = None\<rparr>
   \<and> fst (R2_var ''bar'' (snd (R2_task [(''foo'', Str ''services/app/foo''), (''bar'', Str ''queue'')]
        (snd (R2_set_callback ''bar'' (Str ''old'') (Str ''v'') None R2_Resolver))))) = Undefined"
  using C7_task_registers [of "[(''foo'', Str ''services/app/foo''), (''bar'', Str ''queue'')]"
      "''bar''" "Str ''queue''" "snd (R2_set_callback ''bar'' (Str ''old'') (Str ''v'') None R2_Resolver)"]
  by (simp add: Object_keys_def R2_set_callback_def R2_set_args_def R2_Resolver_def
        new_entries_object_def R2_set_prop_def)

text \<open>
  C8. A read that completes without error and finds the key unset is claimed to resolve
  with \<^verbatim>\<open>undefined\<close>, to store it under the local name and to make \<^verbatim>\<open>var(name)\<close>
  return \<^verbatim>\<open>undefined\<close>, for every read. In the list version \<^verbatim>\<open>get('__proto__')\<close>
  resolves with \<^verbatim>\<open>undefined\<close> but stores nothing, and \<^verbatim>\<open>var('__proto__')\<close> returns
  \<^verbatim>\<open>Object.prototype\<close>. In the mapping version \<^verbatim>\<open>_get('x', 'k')\<close> for a name that has
  no entry throws a \<^verbatim>\<open>TypeError\<close> in the callback: the promise is neither resolved nor
  rejected and nothing is stored. (What holds: lemmas \<open>R1_unset_key\<close> and
  \<open>R2_unset_key\<close>.)
\<close>

theorem C8_unset_key_proto_and_unregistered:
  "(let r1 = R1_get_call ''__proto__'' R1_Resolver;
        res = R1_get_callback ''__proto__'' (Inr None) r1
    in fst res = Resolved Undefined
       \<and> vars (snd res) = new_object
       \<and> fst (R1_var ''__proto__'' (snd res)) = Object_prototype)
   \<and> (let r1 = R2_get_call ''x'' (Str ''k'') R2_Resolver
       in R2_get_callback ''x'' (Inr None) r1 = (TypeError, r1))"
  by (simp add: R1_get_call_def R1_get_callback_def R1_Resolver_def R1_var_def set_prop_def
        get_prop_def new_object_def R2_get_call_def R2_get_callback_def R2_Resolver_def
        new_entries_object_def R2_set_value_def R2_get_prop_def Object_prototype_get_def
        Object_prototype_functions_def Let_def)

text \<open>
  C9. Invoking the closure of \<^verbatim>\<open>task\<close> again, after a first bulk resolution with any
  completions, hands a read for every key to the client a second time and waits on a
  fresh \<^verbatim>\<open>Promise.all\<close>: nothing of the first invocation is reused.
\<close>

theorem C9_second_invocation_reads_again:
  "kv_log (snd (R2_invoke vs (snd (R2_run vs evs r))))
     = kv_log r @ map (\<lambda>key. KvGet (js_prop vs key)) (Object_keys vs)
                @ map (\<lambda>key. KvGet (js_prop vs key)) (Object_keys vs)
   \<and> fst (R2_invoke vs (snd (R2_run vs evs r))) = Promise_all (length (Object_keys vs))
   \<and> kv_log (snd (R1_invoke keys (snd (R1_run keys evs r'))))
     = kv_log r' @ map (\<lambda>key. KvGet (Str key)) keys @ map (\<lambda>key. KvGet (Str key)) keys
   \<and> fst (R1_invoke keys (snd (R1_run keys evs r'))) = Promise_all (length keys)"
  by (simp add: R2_invoke_log R2_run_log R1_invoke_log R1_run_log)
     (simp add: R2_invoke_def R1_invoke_def)

text \<open>
  C10. In the mapping version \<^verbatim>\<open>set(n, p, undefined)\<close> is the two-argument call:
  it writes \<^verbatim>\<open>p\<close> to the remote key \<^verbatim>\<open>n\<close>, not \<^verbatim>\<open>undefined\<close> to the remote
  key \<^verbatim>\<open>p\<close>, and on success assigns \<^verbatim>\<open>{path: n, value: p}\<close> to
  \<^verbatim>\<open>this._vars[n]\<close>, so that \<^verbatim>\<open>var(n)\<close> returns \<^verbatim>\<open>p\<close>.
\<close>

theorem C10_set_third_argument_undefined:
  "R2_set_call n p Undefined r = r\<lparr>kv_log := kv_log r @ [KvSet (Str n) p]\<rparr>
   \<and> KvSet (Str n) p \<noteq> KvSet p Undefined
   \<and> R2_set_callback n p Undefined None r
       = (Resolved (),
          r\<lparr>vars := R2_set_prop n \<lparr>entry_path = Str n, entry_value = Some p\<rparr> (vars r)\<rparr>)
   \<and> R2_entry (vars (snd (R2_set_callback n p Undefined None r))) n
       = Some \<lparr>entry_path = Str n, entry_value = Some p\<rparr>
   \<and> fst (R2_var n (snd (R2_set_callback n p Undefined None r))) = p"
  by (auto simp add: R2_set_call_def R2_set_callback_def R2_set_args_def R2_entry_set_prop
        R2_var_def and_value_entry)

end
